theory Spec2Isabelle
  imports Main "HOL-Library.Word" "HOL-Library.Monad_Syntax"
begin

unbundle bit_operations_syntax

section \<open>Machine model\<close>

text \<open>
  The embedding follows \<^verbatim>\<open>include/slang/util/Hash.h\<close> on the configuration its
  first preprocessor branch selects: a little-endian LP64 target with a 128-bit integer
  type (x86-64 with GCC or Clang). There \<^verbatim>\<open>size_t\<close>, \<^verbatim>\<open>uintptr_t\<close>, \<^verbatim>\<open>uint64_t\<close>,
  \<^verbatim>\<open>long\<close> and \<^verbatim>\<open>long long\<close> are 64 bits wide, \<^verbatim>\<open>int\<close> and \<^verbatim>\<open>wchar_t\<close> 32 bits,
  \<^verbatim>\<open>short\<close> 16 bits, and plain \<^verbatim>\<open>char\<close> is signed. Unsigned arithmetic wraps, which
  is what \<open>+\<close> and \<open>*\<close> on words do.
\<close>

type_synonym u8 = "8 word"
type_synonym u16 = "16 word"
type_synonym u32 = "32 word"
type_synonym u64 = "64 word"
type_synonym u128 = "128 word"
type_synonym size_t = "64 word"

section \<open>Mixer\<close>

subsection \<open>mum and mix\<close>

text \<open>
  \<^verbatim>\<open>mum(uint64_t* a, uint64_t* b)\<close> overwrites \<open>*a\<close> with the low and \<open>*b\<close> with the
  high half of the product; the model returns the pair \<open>(*a, *b)\<close> after the call.
  \<open>mum\<close> is the \<^verbatim>\<open>__SIZEOF_INT128__\<close> branch, \<open>mum_portable\<close> the final \<^verbatim>\<open>#else\<close>
  branch, statement by statement.
\<close>

definition mum :: "u64 \<Rightarrow> u64 \<Rightarrow> u64 \<times> u64" where
  "mum a b =
     (let r = (ucast a :: u128);
          r = r * ucast b
      in (ucast r, ucast (drop_bit 64 r)))"

definition mum_portable :: "u64 \<Rightarrow> u64 \<Rightarrow> u64 \<times> u64" where
  "mum_portable a b =
     (let ha = drop_bit 32 a;
          hb = drop_bit 32 b;
          la = (ucast (ucast a :: u32) :: u64);
          lb = (ucast (ucast b :: u32) :: u64);
          rh = ha * hb;
          rm0 = ha * lb;
          rm1 = hb * la;
          rl = la * lb;
          t = rl + push_bit 32 rm0;
          c = (if t < rl then 1 else 0 :: u64);
          lo = t + push_bit 32 rm1;
          c = c + (if lo < t then 1 else 0);
          hi = rh + drop_bit 32 rm0 + drop_bit 32 rm1 + c
      in (lo, hi))"

definition mix :: "u64 \<Rightarrow> u64 \<Rightarrow> u64" where
  "mix a b = (case mum a b of (a', b') \<Rightarrow> a' XOR b')"

text \<open>The same \<^verbatim>\<open>mix\<close> when the preprocessor selects the portable branch of \<^verbatim>\<open>mum\<close>.\<close>

definition mix_portable :: "u64 \<Rightarrow> u64 \<Rightarrow> u64" where
  "mix_portable a b = (case mum_portable a b of (a', b') \<Rightarrow> a' XOR b')"

subsection \<open>Reading the key\<close>

text \<open>
  The key of \<^verbatim>\<open>hash(void const* key, size_t len)\<close> is modelled by the list of the
  bytes that are valid to read from \<open>key\<close> on; a null pointer has none, the empty
  list. A position \<open>p\<close> is the offset of a \<^verbatim>\<open>uint8_t const*\<close> from \<open>key\<close>, an integer
  so that pointer arithmetic below the start of the key shows. Every read is checked:
  a read that touches a byte outside the list is the fault \<open>None\<close>, and a fault
  propagates to the result.
\<close>

definition load :: "nat \<Rightarrow> u8 list \<Rightarrow> int \<Rightarrow> u8 list option" where
  "load n key p =
     (if 0 \<le> p \<and> p + int n \<le> int (length key) then Some (take n (drop (nat p) key))
      else None)"

text \<open>The value of bytes copied into an integer on a little-endian machine.\<close>

fun le_word :: "u8 list \<Rightarrow> 'a::len word" where
  "le_word [] = 0"
| "le_word (x # xs) = ucast x OR push_bit 8 (le_word xs)"

definition r8 :: "u8 list \<Rightarrow> int \<Rightarrow> u64 option" where
  "r8 key p = do { bytes \<leftarrow> load 8 key p; let v = (le_word bytes :: u64); Some v }"

definition r4 :: "u8 list \<Rightarrow> int \<Rightarrow> u64 option" where
  "r4 key p = do { bytes \<leftarrow> load 4 key p; let v = (le_word bytes :: u32); Some (ucast v) }"

definition byte_at :: "u8 list \<Rightarrow> int \<Rightarrow> u8 option" where
  "byte_at key p = (if 0 \<le> p \<and> p < int (length key) then Some (key ! nat p) else None)"

definition r3 :: "u8 list \<Rightarrow> int \<Rightarrow> size_t \<Rightarrow> u64 option" where
  "r3 key p k =
     do { p0 \<leftarrow> byte_at key p;
          p1 \<leftarrow> byte_at key (p + uint (drop_bit 1 k));
          p2 \<leftarrow> byte_at key (p + uint (k - 1));
          Some (push_bit 16 (ucast p0) OR push_bit 8 (ucast p1) OR ucast p2) }"

subsection \<open>hash of a byte buffer\<close>

definition secret :: "u64 list" where
  "secret = [0xa0761d6478bd642f, 0xe7037ed1a0b428db, 0x8ebc6af09c88c6e3, 0x589965cc75374cc3]"

text \<open>
  The \<^verbatim>\<open>do ... while (i > 48)\<close> loop from its body on: the state is \<open>p\<close>, \<open>i\<close> and the
  three seeds, returned as they are when the loop is left.
\<close>

function lanes :: "u8 list \<Rightarrow> int \<Rightarrow> size_t \<Rightarrow> u64 \<Rightarrow> u64 \<Rightarrow> u64 \<Rightarrow>
    (int \<times> size_t \<times> u64 \<times> u64 \<times> u64) option" where
  "lanes key p i seed see1 see2 =
     do { w0 \<leftarrow> r8 key p;
          w1 \<leftarrow> r8 key (p + 8);
          w2 \<leftarrow> r8 key (p + 16);
          w3 \<leftarrow> r8 key (p + 24);
          w4 \<leftarrow> r8 key (p + 32);
          w5 \<leftarrow> r8 key (p + 40);
          let seed = mix (w0 XOR secret ! 1) (w1 XOR seed);
              see1 = mix (w2 XOR secret ! 2) (w3 XOR see1);
              see2 = mix (w4 XOR secret ! 3) (w5 XOR see2);
              p = p + 48;
              i = i - 48
          in if i > 48 then lanes key p i seed see1 see2
             else Some (p, i, seed, see1, see2) }"
  by pat_completeness auto
termination
  apply (relation "measure (\<lambda>(key, p, i, seed, see1, see2). nat (int (length key) - p))")
   apply simp
  apply (auto simp: r8_def load_def split: if_splits bind_splits)
  done

text \<open>The \<^verbatim>\<open>while (i > 16)\<close> loop, with the state \<open>p\<close>, \<open>i\<close> and \<open>seed\<close>.\<close>

function strides :: "u8 list \<Rightarrow> int \<Rightarrow> size_t \<Rightarrow> u64 \<Rightarrow> (int \<times> size_t \<times> u64) option" where
  "strides key p i seed =
     (if i > 16 then
        do { w0 \<leftarrow> r8 key p;
             w1 \<leftarrow> r8 key (p + 8);
             let seed = mix (w0 XOR secret ! 1) (w1 XOR seed);
                 i = i - 16;
                 p = p + 16
             in strides key p i seed }
      else Some (p, i, seed))"
  by pat_completeness auto
termination
  apply (relation "measure (\<lambda>(key, p, i, seed). unat i)")
   apply simp
  apply (auto simp: word_less_nat_alt unat_sub word_le_nat_alt)
  done

text \<open>
  The body of \<^verbatim>\<open>hash(void const* key, size_t len)\<close> up to its \<^verbatim>\<open>return\<close>: the values
  of the locals \<open>seed\<close>, \<open>a\<close> and \<open>b\<close> there.
\<close>

definition hash_locals :: "u8 list \<Rightarrow> size_t \<Rightarrow> (u64 \<times> u64 \<times> u64) option" where
  "hash_locals key len =
     (let p = 0;
          seed = secret ! 0
      in if len \<le> 16 then
           if len \<ge> 4 then
             do { a0 \<leftarrow> r4 key p;
                  a1 \<leftarrow> r4 key (p + uint (push_bit 2 (drop_bit 3 len)));
                  b0 \<leftarrow> r4 key (p + uint len - 4);
                  b1 \<leftarrow> r4 key (p + uint len - 4 - uint (push_bit 2 (drop_bit 3 len)));
                  Some (seed, push_bit 32 a0 OR a1, push_bit 32 b0 OR b1) }
           else if len > 0 then
             do { a \<leftarrow> r3 key p len;
                  Some (seed, a, 0) }
           else Some (seed, 0, 0)
         else
           do { let i = len;
                (p, i, seed) \<leftarrow>
                  (if i > 48 then
                     do { let see1 = seed;
                          let see2 = seed;
                          (p, i, seed, see1, see2) \<leftarrow> lanes key p i seed see1 see2;
                          Some (p, i, seed XOR (see1 XOR see2)) }
                   else Some (p, i, seed));
                (p, i, seed) \<leftarrow> strides key p i seed;
                a \<leftarrow> r8 key (p + uint i - 16);
                b \<leftarrow> r8 key (p + uint i - 8);
                Some (seed, a, b) })"

text \<open>\<^verbatim>\<open>hash(void const* key, size_t len)\<close>: the spec's \<^verbatim>\<open>hashBytes\<close>.\<close>

definition hash_bytes :: "u8 list \<Rightarrow> size_t \<Rightarrow> u64 option" where
  "hash_bytes key len =
     do { (seed, a, b) \<leftarrow> hash_locals key len;
          Some (mix (secret ! 1 XOR len) (mix (a XOR secret ! 1) (b XOR seed))) }"

subsection \<open>hash of a 64-bit integer\<close>

definition hash_u64 :: "u64 \<Rightarrow> u64" where
  "hash_u64 x = mix x 0x9E3779B97F4A7C15"

section \<open>Dispatch\<close>

subsection \<open>Pointers\<close>

text \<open>
  A raw pointer is its numeric address, the value of
  \<^verbatim>\<open>reinterpret_cast<uintptr_t>(ptr)\<close>; the null pointer has address 0. A
  \<^verbatim>\<open>unique_ptr\<close> or \<^verbatim>\<open>shared_ptr\<close> is either empty or manages an object at an
  address, and \<^verbatim>\<open>get()\<close> returns the raw pointer it stores.
\<close>

type_synonym ptr = u64

definition nullptr :: ptr where
  "nullptr = 0"

datatype smart_ptr = Empty | Managing ptr

fun get :: "smart_ptr \<Rightarrow> ptr" where
  "get Empty = nullptr"
| "get (Managing p) = p"

definition hash_ptr :: "ptr \<Rightarrow> u64" where
  "hash_ptr p = hash_u64 p"

definition hash_unique_ptr :: "smart_ptr \<Rightarrow> u64" where
  "hash_unique_ptr p = hash_u64 (get p)"

definition hash_shared_ptr :: "smart_ptr \<Rightarrow> u64" where
  "hash_shared_ptr p = hash_u64 (get p)"

subsection \<open>Enumerations and built-in integral types\<close>

text \<open>
  \<^verbatim>\<open>hash<Enum>\<close> casts to the underlying type and then to \<^verbatim>\<open>uint64_t\<close>; the two
  casts are the parameters \<open>underlying\<close> and \<open>widen\<close>.
\<close>

definition hash_enum :: "('e \<Rightarrow> 'u) \<Rightarrow> ('u \<Rightarrow> u64) \<Rightarrow> 'e \<Rightarrow> u64" where
  "hash_enum underlying widen e = hash_u64 (widen (underlying e))"

text \<open>
  \<^verbatim>\<open>SLANG_HASH_STATICCAST(T)\<close> hashes \<^verbatim>\<open>static_cast<uint64_t>(obj)\<close>. The cast of a
  signed type is \<open>scast\<close> (sign extension), of an unsigned type \<open>ucast\<close> (zero
  extension), of \<^verbatim>\<open>bool\<close> 0 or 1. One definition per instantiation of the macro.
\<close>

definition hash_bool :: "bool \<Rightarrow> u64" where
  "hash_bool obj = hash_u64 (of_bool obj)"

definition hash_char :: "u8 \<Rightarrow> u64" where
  "hash_char obj = hash_u64 (scast obj)"

definition hash_signed_char :: "u8 \<Rightarrow> u64" where
  "hash_signed_char obj = hash_u64 (scast obj)"

definition hash_unsigned_char :: "u8 \<Rightarrow> u64" where
  "hash_unsigned_char obj = hash_u64 (ucast obj)"

definition hash_char16_t :: "u16 \<Rightarrow> u64" where
  "hash_char16_t obj = hash_u64 (ucast obj)"

definition hash_char32_t :: "u32 \<Rightarrow> u64" where
  "hash_char32_t obj = hash_u64 (ucast obj)"

definition hash_wchar_t :: "u32 \<Rightarrow> u64" where
  "hash_wchar_t obj = hash_u64 (scast obj)"

definition hash_short :: "u16 \<Rightarrow> u64" where
  "hash_short obj = hash_u64 (scast obj)"

definition hash_unsigned_short :: "u16 \<Rightarrow> u64" where
  "hash_unsigned_short obj = hash_u64 (ucast obj)"

definition hash_int :: "u32 \<Rightarrow> u64" where
  "hash_int obj = hash_u64 (scast obj)"

definition hash_unsigned_int :: "u32 \<Rightarrow> u64" where
  "hash_unsigned_int obj = hash_u64 (ucast obj)"

definition hash_long :: "u64 \<Rightarrow> u64" where
  "hash_long obj = hash_u64 (scast obj)"

definition hash_long_long :: "u64 \<Rightarrow> u64" where
  "hash_long_long obj = hash_u64 (scast obj)"

definition hash_unsigned_long :: "u64 \<Rightarrow> u64" where
  "hash_unsigned_long obj = hash_u64 (ucast obj)"

definition hash_unsigned_long_long :: "u64 \<Rightarrow> u64" where
  "hash_unsigned_long_long obj = hash_u64 (ucast obj)"

section \<open>Combiner\<close>

text \<open>
  \<^verbatim>\<open>hash_combine(size_t& seed, const T& v, Rest... rest)\<close> updates \<open>seed\<close> in place;
  the model returns the updated seed. The argument pack is a list, and \<open>hasher\<close> is
  the family \<^verbatim>\<open>hash<T>\<close> that template resolution selects for each argument, a
  function on the values of all argument types together.
\<close>

fun hash_combine :: "('a \<Rightarrow> u64) \<Rightarrow> size_t \<Rightarrow> 'a list \<Rightarrow> size_t" where
  "hash_combine hasher seed [] = seed"
| "hash_combine hasher seed (v # rest) =
     hash_combine hasher
       (seed XOR (hasher v + 0x9e3779b9 + push_bit 6 seed + drop_bit 2 seed)) rest"

text \<open>
  \<^verbatim>\<open>HashValueImpl<Tuple, Index>::apply\<close>: the primary template recurses on
  \<open>Index - 1\<close> first and then combines field \<open>Index\<close>; the specialisation for index 0
  combines field 0. A tuple is the list of its fields, \<^verbatim>\<open>std::get<I>\<close> is \<open>tuple ! I\<close>.
\<close>

fun HashValueImpl :: "('a \<Rightarrow> u64) \<Rightarrow> nat \<Rightarrow> size_t \<Rightarrow> 'a list \<Rightarrow> size_t" where
  "HashValueImpl hasher 0 seed tuple = hash_combine hasher seed [tuple ! 0]"
| "HashValueImpl hasher (Suc i) seed tuple =
     hash_combine hasher (HashValueImpl hasher i seed tuple) [tuple ! Suc i]"

text \<open>
  \<^verbatim>\<open>hash<std::tuple<TT...>>\<close> starts the recursion at index
  \<^verbatim>\<open>tuple_size - 1\<close>. For the empty tuple that index wraps around to the largest
  \<^verbatim>\<open>size_t\<close> and the recursion never reaches index 0, so the template does not
  instantiate: the empty tuple has no hash, \<open>None\<close> here.
\<close>

definition hash_tuple :: "('a \<Rightarrow> u64) \<Rightarrow> 'a list \<Rightarrow> size_t option" where
  "hash_tuple hasher tt =
     (if tt = [] then None
      else (let seed = 0 in Some (HashValueImpl hasher (length tt - 1) seed tt)))"

definition hash_pair :: "('a \<Rightarrow> u64) \<Rightarrow> 'a \<times> 'a \<Rightarrow> size_t" where
  "hash_pair hasher p = (let seed = 0 in hash_combine hasher seed [fst p, snd p])"

text \<open>The range-based \<^verbatim>\<open>for\<close> loop of \<^verbatim>\<open>hash<std::vector<T>>\<close>, from a given seed.\<close>

fun vector_loop :: "('a \<Rightarrow> u64) \<Rightarrow> size_t \<Rightarrow> 'a list \<Rightarrow> size_t" where
  "vector_loop hasher seed [] = seed"
| "vector_loop hasher seed (elem # v) = vector_loop hasher (hash_combine hasher seed [elem]) v"

definition hash_vector :: "('a \<Rightarrow> u64) \<Rightarrow> 'a list \<Rightarrow> size_t" where
  "hash_vector hasher v = (let seed = 0 in vector_loop hasher seed v)"

section \<open>The vocabulary of the claims\<close>

text \<open>
  The claims speak of the 8-byte and 4-byte loads at a byte offset of the key. These
  are the little-endian words of the key at an offset \<open>k\<close>, meant for offsets where the
  load lies inside the key; that the code's checked reads succeed there and return
  these words is part of what the theorems below establish.
\<close>

definition word64_at :: "u8 list \<Rightarrow> nat \<Rightarrow> u64" where
  "word64_at key k = le_word (take 8 (drop k key))"

definition word32_at :: "u8 list \<Rightarrow> nat \<Rightarrow> u64" where
  "word32_at key k = ucast (le_word (take 4 (drop k key)) :: u32)"

text \<open>
  The long-key path in the words of claim C3. \<open>lane_step\<close> advances the three seeds over
  the 48-byte chunk number \<open>j\<close>: each seed takes its own 16 bytes of the chunk and its
  own constant. \<open>stride_step\<close> is the 16-byte stride number \<open>j\<close> counted from the offset
  \<open>start\<close>. \<open>long_spec\<close> runs \<open>chunks\<close> chunks through the three seeds, folds the seeds,
  continues with 16-byte strides while more than 16 bytes remain, and takes \<open>a\<close> and
  \<open>b\<close> from the last 16 bytes of the key. The number of chunks is a parameter.
\<close>

definition lane_step :: "u8 list \<Rightarrow> u64 \<times> u64 \<times> u64 \<Rightarrow> nat \<Rightarrow> u64 \<times> u64 \<times> u64" where
  "lane_step key s j =
     (case s of (seed, see1, see2) \<Rightarrow>
        (mix (word64_at key (48 * j) XOR secret ! 1) (word64_at key (48 * j + 8) XOR seed),
         mix (word64_at key (48 * j + 16) XOR secret ! 2) (word64_at key (48 * j + 24) XOR see1),
         mix (word64_at key (48 * j + 32) XOR secret ! 3) (word64_at key (48 * j + 40) XOR see2)))"

definition stride_step :: "u8 list \<Rightarrow> nat \<Rightarrow> u64 \<Rightarrow> nat \<Rightarrow> u64" where
  "stride_step key start seed j =
     mix (word64_at key (start + 16 * j) XOR secret ! 1)
         (word64_at key (start + 16 * j + 8) XOR seed)"

definition long_spec :: "nat \<Rightarrow> u8 list \<Rightarrow> u64 \<times> u64 \<times> u64" where
  "long_spec chunks key =
     (let n = length key;
          (seed, see1, see2) =
            foldl (lane_step key) (secret ! 0, secret ! 0, secret ! 0) [0..<chunks];
          seed = seed XOR (see1 XOR see2);
          remaining = n - 48 * chunks;
          seed = foldl (stride_step key (48 * chunks)) seed [0..<(remaining - 1) div 16]
      in (seed, word64_at key (n - 16), word64_at key (n - 8)))"

section \<open>Properties of the mixer\<close>

subsection \<open>Words as natural numbers\<close>

lemma unat_hi32: "unat (drop_bit 32 (a :: u64)) = unat a div 2 ^ 32"
  by (simp add: drop_bit_eq_div unat_div)

lemma unat_lo32: "unat (ucast (ucast (a :: u64) :: u32) :: u64) = unat a mod 2 ^ 32"
  by (simp add: unsigned_ucast_eq take_bit_eq_mod unat_mod)

lemma unat_shl32: "unat (push_bit 32 (w :: u64)) = (unat w mod 2 ^ 32) * 2 ^ 32"
proof -
  have "unat (push_bit 32 w) = take_bit 64 (push_bit 32 (unat w))"
    by (simp only: unsigned_push_bit_eq len_of_numeral_defs) simp
  also have "\<dots> = (unat w * 2 ^ 32) mod 2 ^ 64"
    by (simp only: take_bit_eq_mod push_bit_eq_mult)
  also have "\<dots> = (unat w mod 2 ^ 32) * 2 ^ 32"
    using mult_mod_left [of "unat w" "2 ^ 32" "2 ^ 32"] by simp
  finally show ?thesis .
qed

lemma unat_small_mult:
  fixes x y :: u64
  assumes "unat x < 2 ^ 32" "unat y < 2 ^ 32"
  shows "unat (x * y) = unat x * unat y"
proof -
  have "unat x * unat y < 2 ^ 32 * 2 ^ 32"
    using assms by (intro mult_strict_mono) simp_all
  then have "unat x * unat y < 2 ^ LENGTH(64)" by simp
  then show ?thesis by (simp only: unat_mult_lem)
qed

lemma unat_add64: "unat ((x :: u64) + y) = (unat x + unat y) mod 2 ^ 64"
  by (simp add: unat_word_ariths)

lemma carry64: "((x :: u64) + y < x) = (2 ^ 64 \<le> unat x + unat y)"
proof -
  have "(x \<le> x + y) = (unat x + unat y < 2 ^ LENGTH(64))"
    by (rule no_olen_add_nat)
  then show ?thesis by (simp add: not_le [symmetric])
qed

lemma split32: "(m::nat) * 2 ^ 32 = m div 2 ^ 32 * 2 ^ 64 + m mod 2 ^ 32 * 2 ^ 32"
proof -
  have "m * 2 ^ 32 = (m div 2 ^ 32 * 2 ^ 32 + m mod 2 ^ 32) * 2 ^ 32"
    by simp
  also have "\<dots> = m div 2 ^ 32 * (2 ^ 32 * 2 ^ 32) + m mod 2 ^ 32 * 2 ^ 32"
    by (simp only: distrib_right mult.assoc)
  also have "(2::nat) ^ 32 * 2 ^ 32 = 2 ^ 64"
    by simp
  finally show ?thesis .
qed

lemma schoolbook:
  fixes ha la hb lb :: nat
  assumes "x0 = (ha * lb) mod 2 ^ 32 * 2 ^ 32"
      and "x1 = (hb * la) mod 2 ^ 32 * 2 ^ 32"
      and "t = (la * lb + x0) mod 2 ^ 64"
      and "c1 = (if 2 ^ 64 \<le> la * lb + x0 then 1 else 0)"
      and "lo = (t + x1) mod 2 ^ 64"
      and "c2 = (if 2 ^ 64 \<le> t + x1 then 1 else 0)"
      and "la * lb < 2 ^ 64"
  shows "(ha * 2 ^ 32 + la) * (hb * 2 ^ 32 + lb) =
         (ha * hb + (ha * lb) div 2 ^ 32 + (hb * la) div 2 ^ 32 + c1 + c2) * 2 ^ 64 + lo"
proof -
  have x0: "x0 < 2 ^ 64" and x1: "x1 < 2 ^ 64"
    unfolding assms(1,2) by simp_all
  have t: "la * lb + x0 = c1 * 2 ^ 64 + t"
  proof (cases "2 ^ 64 \<le> la * lb + x0")
    case True
    with x0 assms(7) have "(la * lb + x0) mod 2 ^ 64 = la * lb + x0 - 2 ^ 64"
      by (simp add: mod_if)
    with True show ?thesis by (simp add: assms(3,4))
  next
    case False
    then show ?thesis by (simp add: assms(3,4))
  qed
  have tlt: "t < 2 ^ 64" by (simp add: assms(3))
  have lo: "t + x1 = c2 * 2 ^ 64 + lo"
  proof (cases "2 ^ 64 \<le> t + x1")
    case True
    with x1 tlt have "(t + x1) mod 2 ^ 64 = t + x1 - 2 ^ 64"
      by (simp add: mod_if)
    with True show ?thesis by (simp add: assms(5,6))
  next
    case False
    then show ?thesis by (simp add: assms(5,6))
  qed
  have m0: "ha * lb = (ha * lb) div 2 ^ 32 * 2 ^ 32 + (ha * lb) mod 2 ^ 32" by simp
  have m1: "hb * la = (hb * la) div 2 ^ 32 * 2 ^ 32 + (hb * la) mod 2 ^ 32" by simp
  have "(ha * 2 ^ 32 + la) * (hb * 2 ^ 32 + lb) =
        ha * hb * 2 ^ 64 + (ha * lb) * 2 ^ 32 + (hb * la) * 2 ^ 32 + la * lb"
    by (simp add: algebra_simps)
  also have "(ha * lb) * 2 ^ 32 = (ha * lb) div 2 ^ 32 * 2 ^ 64 + x0"
    unfolding assms(1) by (rule split32)
  also have "(hb * la) * 2 ^ 32 = (hb * la) div 2 ^ 32 * 2 ^ 64 + x1"
    unfolding assms(2) by (rule split32)
  finally have "(ha * 2 ^ 32 + la) * (hb * 2 ^ 32 + lb) =
     (ha * hb + (ha * lb) div 2 ^ 32 + (hb * la) div 2 ^ 32) * 2 ^ 64 + ((la * lb + x0) + x1)"
    by (simp add: algebra_simps)
  also have "(la * lb + x0) + x1 = (c1 + c2) * 2 ^ 64 + lo"
    using t lo by (simp add: algebra_simps)
  finally show ?thesis by (simp add: algebra_simps)
qed

subsection \<open>Both branches of mum compute the 128-bit product\<close>

lemma mum_unat:
  "unat (fst (mum a b)) = (unat a * unat b) mod 2 ^ 64 \<and>
   unat (snd (mum a b)) = (unat a * unat b) div 2 ^ 64"
proof -
  define r :: u128 where "r = ucast a * ucast b"
  have "unat a < 2 ^ LENGTH(64)" and "unat b < 2 ^ LENGTH(64)"
    by (rule unsigned_less)+
  then have a: "unat a < 2 ^ 64" and b: "unat b < 2 ^ 64"
    by simp_all
  have "unat a * unat b < 2 ^ 64 * 2 ^ 64"
    using a b by (intro mult_strict_mono) simp_all
  then have lt: "unat a * unat b < 2 ^ 128" by simp
  have ua: "unat (ucast a :: u128) = unat a" and ub: "unat (ucast b :: u128) = unat b"
    using a b by (simp_all add: unsigned_ucast_eq take_bit_eq_mod)
  have r: "unat r = unat a * unat b"
    using lt by (simp add: r_def unat_word_ariths ua ub)
  have lo: "unat (ucast r :: u64) = (unat a * unat b) mod 2 ^ 64"
    by (simp add: unsigned_ucast_eq take_bit_eq_mod r)
  have "unat (drop_bit 64 r) = (unat a * unat b) div 2 ^ 64"
    by (simp add: drop_bit_eq_div unat_div r)
  moreover have "(unat a * unat b) div 2 ^ 64 < 2 ^ 64"
    using lt by (simp add: less_mult_imp_div_less)
  ultimately have hi: "unat (ucast (drop_bit 64 r) :: u64) = (unat a * unat b) div 2 ^ 64"
    by (simp add: unsigned_ucast_eq take_bit_eq_mod)
  show ?thesis
    using lo hi by (simp add: mum_def Let_def r_def)
qed

lemma mum_portable_unat:
  "unat (fst (mum_portable a b)) = (unat a * unat b) mod 2 ^ 64 \<and>
   unat (snd (mum_portable a b)) = (unat a * unat b) div 2 ^ 64"
proof -
  define ha hb la lb :: u64 where
    "ha = drop_bit 32 a" and "hb = drop_bit 32 b" and
    "la = ucast (ucast a :: u32)" and "lb = ucast (ucast b :: u32)"
  define t where "t = la * lb + push_bit 32 (ha * lb)"
  define lo where "lo = t + push_bit 32 (hb * la)"
  define c1 c2 :: u64 where "c1 = (if t < la * lb then 1 else 0)" and "c2 = (if lo < t then 1 else 0)"
  define hi where "hi = ha * hb + drop_bit 32 (ha * lb) + drop_bit 32 (hb * la) + (c1 + c2)"
  have res: "mum_portable a b = (lo, hi)"
    by (simp add: mum_portable_def Let_def ha_def hb_def la_def lb_def t_def lo_def c1_def c2_def hi_def)
  have "unat a < 2 ^ LENGTH(64)" and "unat b < 2 ^ LENGTH(64)"
    by (rule unsigned_less)+
  then have a: "unat a < 2 ^ 64" and b: "unat b < 2 ^ 64"
    by simp_all
  have uha: "unat ha = unat a div 2 ^ 32" and uhb: "unat hb = unat b div 2 ^ 32"
    and ula: "unat la = unat a mod 2 ^ 32" and ulb: "unat lb = unat b mod 2 ^ 32"
    by (simp_all only: ha_def hb_def la_def lb_def unat_hi32 unat_lo32)
  have sm: "unat ha < 2 ^ 32" "unat hb < 2 ^ 32" "unat la < 2 ^ 32" "unat lb < 2 ^ 32"
    using a b by (simp_all add: uha uhb ula ulb less_mult_imp_div_less)
  have rh: "unat (ha * hb) = unat ha * unat hb"
    and rm0: "unat (ha * lb) = unat ha * unat lb"
    and rm1: "unat (hb * la) = unat hb * unat la"
    and rl: "unat (la * lb) = unat la * unat lb"
    using sm by (simp_all only: unat_small_mult)
  define x0 x1 where "x0 = (unat ha * unat lb) mod 2 ^ 32 * 2 ^ 32"
    and "x1 = (unat hb * unat la) mod 2 ^ 32 * 2 ^ 32"
  have ut: "unat t = (unat la * unat lb + x0) mod 2 ^ 64"
    by (simp only: t_def unat_add64 unat_shl32 rm0 rl x0_def)
  have ulo: "unat lo = (unat t + x1) mod 2 ^ 64"
    by (simp only: lo_def unat_add64 unat_shl32 rm1 x1_def)
  have uc1: "unat c1 = (if 2 ^ 64 \<le> unat la * unat lb + x0 then 1 else 0)"
    unfolding c1_def t_def carry64 by (simp only: unat_shl32 rm0 rl x0_def if_distrib [of unat] unsigned_1 unsigned_0)
  have uc2: "unat c2 = (if 2 ^ 64 \<le> unat t + x1 then 1 else 0)"
    unfolding c2_def lo_def carry64 by (simp only: unat_shl32 rm1 x1_def if_distrib [of unat] unsigned_1 unsigned_0)
  have rllt: "unat la * unat lb < 2 ^ 64"
  proof -
    have "unat (la * lb) < 2 ^ LENGTH(64)" by (rule unsigned_less)
    then show ?thesis by (simp add: rl)
  qed
  have ab: "unat a = unat ha * 2 ^ 32 + unat la" "unat b = unat hb * 2 ^ 32 + unat lb"
    by (simp_all add: uha uhb ula ulb)
  define H where "H = unat ha * unat hb + (unat ha * unat lb) div 2 ^ 32 +
      (unat hb * unat la) div 2 ^ 32 + unat c1 + unat c2"
  have prod: "unat a * unat b = H * 2 ^ 64 + unat lo"
    unfolding ab H_def
    by (rule schoolbook [OF x0_def x1_def ut uc1 ulo uc2 rllt])
  have lolt: "unat lo < 2 ^ 64"
  proof -
    have "unat lo < 2 ^ LENGTH(64)" by (rule unsigned_less)
    then show ?thesis by simp
  qed
  have lo_eq: "unat lo = (unat a * unat b) mod 2 ^ 64"
    using lolt by (simp add: prod)
  have H_eq: "H = (unat a * unat b) div 2 ^ 64"
    using lolt by (simp add: prod)
  have "unat a * unat b < 2 ^ 64 * 2 ^ 64"
    using a b by (intro mult_strict_mono) simp_all
  then have Hlt: "H < 2 ^ 64"
    by (simp add: H_eq less_mult_imp_div_less)
  have c12: "unat (c1 + c2) = unat c1 + unat c2"
    by (simp add: c1_def c2_def)
  have "unat hi = H mod 2 ^ 64"
    unfolding hi_def H_def
    by (simp only: unat_add64 unat_hi32 rh rm0 rm1 mod_add_left_eq mod_add_right_eq c12 add.assoc)
  with Hlt have hi_eq: "unat hi = (unat a * unat b) div 2 ^ 64"
    by (simp add: H_eq)
  show ?thesis
    by (simp only: res fst_conv snd_conv lo_eq hi_eq)
qed

lemma mum_portable_eq: "mum_portable a b = mum a b"
proof (rule prod_eqI)
  show "fst (mum_portable a b) = fst (mum a b)"
    using mum_portable_unat [of a b] mum_unat [of a b]
    by (simp only: word_unat_eq_iff)
  show "snd (mum_portable a b) = snd (mum a b)"
    using mum_portable_unat [of a b] mum_unat [of a b]
    by (simp only: word_unat_eq_iff)
qed

text \<open>
  C1. For all 64-bit \<open>a\<close> and \<open>b\<close> the portable branch of \<^verbatim>\<open>mum\<close> (32-bit halves,
  four partial products, two carries) leaves the same low and high word as the 128-bit
  branch, so \<^verbatim>\<open>mix\<close> returns the same value on either branch. The two words are the
  low and the high half of the product of \<open>a\<close> and \<open>b\<close> as natural numbers.
\<close>

theorem mum_portable_refines:
  "mum_portable a b = mum a b
   \<and> mix_portable a b = mix a b
   \<and> unat (fst (mum a b)) + 2 ^ 64 * unat (snd (mum a b)) = unat a * unat b"
proof -
  have "unat (fst (mum a b)) + 2 ^ 64 * unat (snd (mum a b)) =
        (unat a * unat b) mod 2 ^ 64 + 2 ^ 64 * ((unat a * unat b) div 2 ^ 64)"
    by (simp only: mum_unat)
  also have "\<dots> = unat a * unat b"
    by (rule mod_mult_div_eq)
  finally show ?thesis
    by (simp add: mum_portable_eq mix_def mix_portable_def)
qed

section \<open>Properties of the hash of a byte buffer\<close>

subsection \<open>Reads inside the key\<close>

declare lanes.simps [simp del] strides.simps [simp del]

lemma r8_Some:
  "p + 8 \<le> length key \<Longrightarrow> r8 key (int p) = Some (word64_at key p)"
  by (simp add: r8_def load_def word64_at_def)

lemma r4_Some:
  "p + 4 \<le> length key \<Longrightarrow> r4 key (int p) = Some (word32_at key p)"
  by (simp add: r4_def load_def word32_at_def)

lemma gt48: "(48 < (i :: u64)) = (48 < unat i)"
  by (simp add: word_less_nat_alt)

lemma gt16: "(16 < (i :: u64)) = (16 < unat i)"
  by (simp add: word_less_nat_alt)

lemma unat_sub48: "48 < unat (i :: u64) \<Longrightarrow> unat (i - 48) = unat i - 48"
  by (simp add: unat_sub word_le_nat_alt)

lemma unat_sub16: "16 < unat (i :: u64) \<Longrightarrow> unat (i - 16) = unat i - 16"
  by (simp add: unat_sub word_le_nat_alt)

lemma lanes_unfold:
  assumes "48 * j + 48 \<le> length key"
  shows "lanes key (int (48 * j)) i seed see1 see2 =
     (case lane_step key (seed, see1, see2) j of (seed', see1', see2') \<Rightarrow> 
        if 48 < unat (i - 48) then lanes key (int (48 * Suc j)) (i - 48) seed' see1' see2'
        else Some (int (48 * Suc j), i - 48, seed', see1', see2'))"
proof -
  define p where "p = 48 * j"
  have r: "r8 key (int p) = Some (word64_at key p)"
    "r8 key (int p + 8) = Some (word64_at key (p + 8))"
    "r8 key (int p + 16) = Some (word64_at key (p + 16))"
    "r8 key (int p + 24) = Some (word64_at key (p + 24))"
    "r8 key (int p + 32) = Some (word64_at key (p + 32))"
    "r8 key (int p + 40) = Some (word64_at key (p + 40))"
    using assms r8_Some [of p key] r8_Some [of "p + 8" key] r8_Some [of "p + 16" key]
      r8_Some [of "p + 24" key] r8_Some [of "p + 32" key] r8_Some [of "p + 40" key]
    by (simp_all add: p_def)
  have ip: "int p + 48 = int (48 * Suc j)" by (simp add: p_def)
  have "lanes key (int p) i seed see1 see2 =
     (case lane_step key (seed, see1, see2) j of (seed', see1', see2') \<Rightarrow> 
        if 48 < unat (i - 48) then lanes key (int (48 * Suc j)) (i - 48) seed' see1' see2'
        else Some (int (48 * Suc j), i - 48, seed', see1', see2'))"
    by (subst lanes.simps)
      (simp only: r bind.bind_lunit Let_def lane_step_def gt48 ip prod.case flip: p_def)
  then show ?thesis by (simp only: p_def)
qed

subsection \<open>The two loops\<close>

lemma lanes_run:
  assumes "j < K" "48 * K < length key" "length key \<le> 48 * K + 48"
    and "unat i = length key - 48 * j"
  shows "\<exists>i'. lanes key (int (48 * j)) i seed see1 see2 =
            Some (int (48 * K), i', foldl (lane_step key) (seed, see1, see2) [j..<K])
          \<and> unat i' = length key - 48 * K"
  using assms
proof (induction "K - j" arbitrary: j i seed see1 see2)
  case 0
  then show ?case by simp
next
  case (Suc d)
  from Suc.prems have room: "48 * j + 48 \<le> length key" by simp
  from Suc.prems have big: "48 < unat i" by simp
  have ui: "unat (i - 48) = length key - 48 * Suc j"
    using big Suc.prems(4) by (simp add: unat_sub48)
  obtain seed' see1' see2' where st: "lane_step key (seed, see1, see2) j = (seed', see1', see2')"
    by (cases "lane_step key (seed, see1, see2) j") auto
  show ?case
  proof (cases "Suc j < K")
    case True
    with Suc.prems ui have more: "48 < unat (i - 48)" by simp
    have d: "d = K - Suc j" using Suc.hyps(2) by simp
    from Suc.hyps(1) [OF d True Suc.prems(2) Suc.prems(3) ui, of seed' see1' see2']
    obtain i' where
      "lanes key (int (48 * Suc j)) (i - 48) seed' see1' see2' =
         Some (int (48 * K), i', foldl (lane_step key) (seed', see1', see2') [Suc j..<K])"
      and "unat i' = length key - 48 * K"
      by blast
    moreover have "lanes key (int (48 * j)) i seed see1 see2 =
        lanes key (int (48 * Suc j)) (i - 48) seed' see1' see2'"
      by (simp only: lanes_unfold [OF room] st prod.case more if_True)
    moreover have "[j..<K] = j # [Suc j..<K]"
      using Suc.prems(1) by (simp add: upt_conv_Cons)
    then have "foldl (lane_step key) (seed, see1, see2) [j..<K] =
        foldl (lane_step key) (seed', see1', see2') [Suc j..<K]"
      by (simp only: foldl_Cons st)
    ultimately show ?thesis
      by (simp only: ex_simps) blast
  next
    case False
    with Suc.prems(1) have K: "K = Suc j" by simp
    with Suc.prems ui have stop: "\<not> 48 < unat (i - 48)" by simp
    have "lanes key (int (48 * j)) i seed see1 see2 =
        Some (int (48 * Suc j), i - 48, seed', see1', see2')"
      by (simp only: lanes_unfold [OF room] st prod.case stop if_False)
    moreover have "foldl (lane_step key) (seed, see1, see2) [j..<Suc j] = (seed', see1', see2')"
      by (simp add: st)
    ultimately show ?thesis
      using ui unfolding K by simp
  qed
qed

lemma strides_stop: "\<not> 16 < unat i \<Longrightarrow> strides key p i seed = Some (p, i, seed)"
  by (subst strides.simps) (simp add: gt16)

lemma strides_step:
  assumes "16 < unat i" "start + 16 * j + 16 \<le> length key"
  shows "strides key (int (start + 16 * j)) i seed =
         strides key (int (start + 16 * Suc j)) (i - 16) (stride_step key start seed j)"
proof -
  define p where "p = start + 16 * j"
  have r: "r8 key (int p) = Some (word64_at key p)"
    "r8 key (int p + 8) = Some (word64_at key (p + 8))"
    using assms r8_Some [of p key] r8_Some [of "p + 8" key]
    by (simp_all add: p_def)
  have ip: "int p + 16 = int (start + 16 * Suc j)" by (simp add: p_def)
  have "strides key (int p) i seed =
         strides key (int (start + 16 * Suc j)) (i - 16) (stride_step key start seed j)"
    using assms(1)
    by (subst strides.simps)
      (simp only: r bind.bind_lunit Let_def stride_step_def gt16 ip if_True flip: p_def)
  then show ?thesis by (simp only: p_def)
qed

lemma strides_run:
  assumes "j \<le> M" "start + 16 * M < length key" "length key \<le> start + 16 * M + 16"
    and "unat i = length key - start - 16 * j"
  shows "\<exists>i'. strides key (int (start + 16 * j)) i seed =
            Some (int (start + 16 * M), i', foldl (stride_step key start) seed [j..<M])
          \<and> unat i' = length key - start - 16 * M"
  using assms
proof (induction "M - j" arbitrary: j i seed)
  case 0
  then have M: "M = j" by simp
  with "0.prems" have "\<not> 16 < unat i" by simp
  then have "strides key (int (start + 16 * j)) i seed = Some (int (start + 16 * j), i, seed)"
    by (rule strides_stop)
  moreover have "foldl (stride_step key start) seed [j..<j] = seed"
    by simp
  ultimately show ?case
    using "0.prems"(4) unfolding M by simp
next
  case (Suc d)
  then have lt: "j < M" by simp
  with Suc.prems have room: "start + 16 * j + 16 \<le> length key" by simp
  from lt Suc.prems have big: "16 < unat i" by simp
  have ui: "unat (i - 16) = length key - start - 16 * Suc j"
    using big Suc.prems(4) by (simp add: unat_sub16)
  have d: "d = M - Suc j" using Suc.hyps(2) by simp
  from lt have le: "Suc j \<le> M" by simp
  from Suc.hyps(1) [OF d le Suc.prems(2) Suc.prems(3) ui, of "stride_step key start seed j"]
  obtain i' where
    "strides key (int (start + 16 * Suc j)) (i - 16) (stride_step key start seed j) =
       Some (int (start + 16 * M), i', foldl (stride_step key start) (stride_step key start seed j) [Suc j..<M])"
    and "unat i' = length key - start - 16 * M"
    by blast
  moreover have "[j..<M] = j # [Suc j..<M]"
    using lt by (simp add: upt_conv_Cons)
  then have "foldl (stride_step key start) seed [j..<M] =
      foldl (stride_step key start) (stride_step key start seed j) [Suc j..<M]"
    by (simp only: foldl_Cons)
  ultimately show ?case
    by (simp only: strides_step [OF big room]) blast
qed

subsection \<open>The locals by length class\<close>

lemma le16: "((len :: u64) \<le> 16) = (unat len \<le> 16)"
  by (simp add: word_le_nat_alt)

lemma ge4: "(4 \<le> (len :: u64)) = (4 \<le> unat len)"
  by (simp add: word_le_nat_alt)

lemma gt0: "(0 < (len :: u64)) = (0 < unat len)"
  by (simp add: word_less_nat_alt)

lemma tail_reads:
  assumes "16 \<le> length key" "p + unat i = length key"
  shows "r8 key (int p + uint i - 16) = Some (word64_at key (length key - 16))"
    and "r8 key (int p + uint i - 8) = Some (word64_at key (length key - 8))"
proof -
  have "int (p + unat i) = int (length key)"
    using assms(2) by simp
  then have "int p + uint i = int (length key)"
    by simp
  then have "int p + uint i - 16 = int (length key - 16)"
    and "int p + uint i - 8 = int (length key - 8)"
    using assms(1) by simp_all
  then show "r8 key (int p + uint i - 16) = Some (word64_at key (length key - 16))"
    and "r8 key (int p + uint i - 8) = Some (word64_at key (length key - 8))"
    using assms(1) r8_Some [of "length key - 16" key] r8_Some [of "length key - 8" key]
    by simp_all
qed

lemma hash_locals_long:
  assumes "48 < unat len" "unat len = length key"
  shows "hash_locals key len = Some (long_spec ((length key - 1) div 48) key)"
proof -
  define n where "n = length key"
  define K where "K = (n - 1) div 48"
  define M where "M = (n - 48 * K - 1) div 16"
  have n: "48 < n" using assms by (simp add: n_def)
  have K: "0 < K" "48 * K < n" "n \<le> 48 * K + 48"
    using n by (simp_all add: K_def)
  have M: "48 * K + 16 * M < n" "n \<le> 48 * K + 16 * M + 16"
    using K by (simp_all add: M_def)
  define s0 where "s0 = secret ! 0"
  obtain seed see1 see2 where fl: "foldl (lane_step key) (s0, s0, s0) [0..<K] = (seed, see1, see2)"
    by (cases "foldl (lane_step key) (s0, s0, s0) [0..<K]") auto
  have "unat len = length key - 48 * 0" using assms by simp
  from lanes_run [OF K(1) K(2) [unfolded n_def] K(3) [unfolded n_def] this, of s0 s0 s0]
  obtain i1 where l1: "lanes key 0 len s0 s0 s0 = Some (int (48 * K), i1, seed, see1, see2)"
    and i1: "unat i1 = n - 48 * K"
    by (auto simp: fl n_def)
  define seed1 where "seed1 = seed XOR (see1 XOR see2)"
  define seed2 where "seed2 = foldl (stride_step key (48 * K)) seed1 [0..<M]"
  have "unat i1 = length key - 48 * K - 16 * 0" using i1 by (simp add: n_def)
  from strides_run [OF le0 M(1) [unfolded n_def] M(2) [unfolded n_def] this, of seed1]
  obtain i2 where l2: "strides key (int (48 * K)) i1 seed1 = Some (int (48 * K + 16 * M), i2, seed2)"
    and i2: "unat i2 = n - 48 * K - 16 * M"
    by (auto simp: seed2_def n_def)
  have "16 \<le> length key" "48 * K + 16 * M + unat i2 = length key"
    using n M i2 by (simp_all add: n_def)
  note tl = tail_reads [OF this]
  have cond: "\<not> len \<le> 16" "48 < len"
    using assms(1) by (simp_all add: le16 gt48)
  have "hash_locals key len = Some (seed2, word64_at key (n - 16), word64_at key (n - 8))"
    unfolding hash_locals_def Let_def
    by (simp only: cond if_True if_False l1 [unfolded s0_def] l2 [unfolded seed1_def] tl
        bind.bind_lunit prod.case n_def)
  moreover have "long_spec K key = (seed2, word64_at key (n - 16), word64_at key (n - 8))"
    unfolding long_spec_def Let_def
    by (simp only: fl [unfolded s0_def] prod.case seed2_def seed1_def M_def n_def)
  ultimately show ?thesis
    by (simp only: K_def n_def)
qed

lemma hash_locals_mid:
  assumes "16 < unat len" "unat len \<le> 48" "unat len = length key"
  shows "hash_locals key len =
     Some (foldl (stride_step key 0) (secret ! 0) [0..<(length key - 1) div 16],
           word64_at key (length key - 16), word64_at key (length key - 8))"
proof -
  define n where "n = length key"
  define M where "M = (n - 1) div 16"
  have n: "16 < n" using assms by (simp add: n_def)
  have M: "0 + 16 * M < n" "n \<le> 0 + 16 * M + 16"
    using n by (simp_all add: M_def)
  define seed2 where "seed2 = foldl (stride_step key 0) (secret ! 0) [0..<M]"
  have "unat len = length key - 0 - 16 * 0" using assms by simp
  from strides_run [OF le0 M(1) [unfolded n_def] M(2) [unfolded n_def] this, of "secret ! 0"]
  obtain i2 where l2: "strides key 0 len (secret ! 0) = Some (int (0 + 16 * M), i2, seed2)"
    and i2: "unat i2 = n - 0 - 16 * M"
    by (auto simp: seed2_def n_def)
  have "16 \<le> length key" "0 + 16 * M + unat i2 = length key"
    using n M i2 by (simp_all add: n_def)
  note tl = tail_reads [OF this]
  have cond: "\<not> len \<le> 16" "\<not> 48 < len"
    using assms(1,2) by (simp_all add: le16 gt48)
  have "hash_locals key len = Some (seed2, word64_at key (n - 16), word64_at key (n - 8))"
    unfolding hash_locals_def Let_def
    by (simp only: cond if_True if_False l2 tl bind.bind_lunit prod.case n_def)
  then show ?thesis
    by (simp only: seed2_def M_def n_def)
qed

lemma unat_stride:
  assumes "unat (len :: u64) \<le> 16"
  shows "unat (push_bit 2 (drop_bit 3 len)) = push_bit 2 (drop_bit 3 (unat len))"
proof -
  have "unat (drop_bit 3 len) = drop_bit 3 (unat len)"
    by (simp only: unat_drop_bit_eq)
  moreover have "drop_bit 3 (unat len) \<le> 2"
    using assms by (simp add: drop_bit_eq_div)
  ultimately have "push_bit 2 (unat (drop_bit 3 len)) < 2 ^ 64"
    by (simp add: push_bit_eq_mult)
  then have "unat (push_bit 2 (drop_bit 3 len)) = push_bit 2 (unat (drop_bit 3 len))"
    by (simp only: unsigned_push_bit_eq take_bit_nat_eq_self_iff [THEN iffD2] len_of_numeral_defs)
      (simp add: take_bit_nat_eq_self_iff [THEN iffD2])
  then show ?thesis
    by (simp only: unat_drop_bit_eq)
qed

lemma stride_room:
  "4 \<le> (n :: nat) \<Longrightarrow> push_bit 2 (drop_bit 3 n) + 4 \<le> n"
proof -
  assume "4 \<le> n"
  then have "n div 8 * 4 + 4 \<le> n"
    by presburger
  then show ?thesis
    by (simp add: push_bit_eq_mult drop_bit_eq_div)
qed

lemma hash_locals_4_16:
  assumes "4 \<le> unat len" "unat len \<le> 16" "unat len = length key"
  shows "hash_locals key len =
     Some (secret ! 0,
           push_bit 32 (word32_at key 0)
             OR word32_at key (push_bit 2 (drop_bit 3 (length key))),
           push_bit 32 (word32_at key (length key - 4))
             OR word32_at key (length key - 4 - push_bit 2 (drop_bit 3 (length key))))"
proof -
  define n where "n = length key"
  define s where "s = push_bit 2 (drop_bit 3 n)"
  have n: "4 \<le> n" "n \<le> 16" using assms by (simp_all add: n_def)
  have s: "s + 4 \<le> n" unfolding s_def using n(1) by (rule stride_room)
  have us: "uint (push_bit 2 (drop_bit 3 len)) = int s"
    using unat_stride [OF assms(2)] by (simp add: uint_nat s_def n_def assms(3))
  have ul: "uint len = int n"
    by (simp add: uint_nat assms(3) n_def)
  have off: "0 + int s = int s" "0 + int n - 4 = int (n - 4)" "int (n - 4) - int s = int (n - 4 - s)"
    using n s by simp_all
  have rd: "r4 key 0 = Some (word32_at key 0)" "r4 key (int s) = Some (word32_at key s)"
    "r4 key (int (n - 4)) = Some (word32_at key (n - 4))"
    "r4 key (int (n - 4 - s)) = Some (word32_at key (n - 4 - s))"
    using n s r4_Some [of 0 key] r4_Some [of s key] r4_Some [of "n - 4" key] r4_Some [of "n - 4 - s" key]
    by (simp_all add: n_def)
  have cond: "len \<le> 16" "4 \<le> len"
    using assms(1,2) by (simp_all add: le16 ge4)
  have "hash_locals key len =
     Some (secret ! 0, push_bit 32 (word32_at key 0) OR word32_at key s,
           push_bit 32 (word32_at key (n - 4)) OR word32_at key (n - 4 - s))"
    unfolding hash_locals_def Let_def
    by (simp only: cond if_True us ul off rd bind.bind_lunit)
  then show ?thesis
    by (simp only: s_def n_def)
qed

lemma hash_locals_1_3:
  assumes "0 < unat len" "unat len < 4" "unat len = length key"
  shows "hash_locals key len =
     Some (secret ! 0,
           push_bit 16 (ucast (key ! 0)) OR push_bit 8 (ucast (key ! (length key div 2)))
             OR ucast (key ! (length key - 1)),
           0)"
proof -
  define n where "n = length key"
  have n: "0 < n" "n < 4" using assms by (simp_all add: n_def)
  have "unat (drop_bit 1 len) = n div 2"
    by (simp add: drop_bit_eq_div unat_div assms(3) n_def)
  then have u1: "uint (drop_bit 1 len) = int (n div 2)"
    by (simp only: uint_nat)
  have "1 \<le> len" using assms(1) by (simp add: word_le_nat_alt)
  then have "unat (len - 1) = n - 1"
    by (simp add: unat_sub assms(3) n_def)
  then have u2: "uint (len - 1) = int (n - 1)"
    by (simp only: uint_nat)
  have rd: "byte_at key 0 = Some (key ! 0)" "byte_at key (0 + int (n div 2)) = Some (key ! (n div 2))"
    "byte_at key (0 + int (n - 1)) = Some (key ! (n - 1))"
    using n by (simp_all add: byte_at_def n_def)
  have cond: "len \<le> 16" "\<not> 4 \<le> len" "0 < len"
    using assms(1,2) by (simp_all add: le16 ge4 gt0)
  have "hash_locals key len =
     Some (secret ! 0,
           push_bit 16 (ucast (key ! 0)) OR push_bit 8 (ucast (key ! (n div 2)))
             OR ucast (key ! (n - 1)),
           0)"
    unfolding hash_locals_def Let_def r3_def
    by (simp only: cond if_True if_False u1 u2 rd bind.bind_lunit)
  then show ?thesis
    by (simp only: n_def)
qed

lemma hash_locals_0: "hash_locals key 0 = Some (secret ! 0, 0, 0)"
  by (simp add: hash_locals_def)

lemma hash_locals_exact:
  assumes "unat len = length key"
  shows "\<exists>r. hash_locals key len = Some r"
proof -
  consider "unat len = 0" | "0 < unat len" "unat len < 4" | "4 \<le> unat len" "unat len \<le> 16"
    | "16 < unat len" "unat len \<le> 48" | "48 < unat len"
    by linarith
  then show ?thesis
  proof cases
    case 1
    then have "len = 0" by (simp add: unat_eq_0)
    then show ?thesis by (simp add: hash_locals_0)
  next
    case 2
    then show ?thesis using hash_locals_1_3 [OF _ _ assms] by simp
  next
    case 3
    then show ?thesis using hash_locals_4_16 [OF _ _ assms] by simp
  next
    case 4
    then show ?thesis using hash_locals_mid [OF _ _ assms] by simp
  next
    case 5
    then show ?thesis using hash_locals_long [OF _ assms] by blast
  qed
qed

subsection \<open>More valid bytes change nothing\<close>

lemma load_mono: "load n key p = Some bs \<Longrightarrow> load n (key @ more) p = Some bs"
  by (auto simp: load_def split: if_splits)

lemma r8_mono: "r8 key p = Some w \<Longrightarrow> r8 (key @ more) p = Some w"
  by (auto simp: r8_def load_mono split: bind_splits)

lemma r4_mono: "r4 key p = Some w \<Longrightarrow> r4 (key @ more) p = Some w"
  by (auto simp: r4_def load_mono split: bind_splits)

lemma byte_at_mono: "byte_at key p = Some b \<Longrightarrow> byte_at (key @ more) p = Some b"
  by (auto simp: byte_at_def nth_append split: if_splits)

lemma r3_mono: "r3 key p k = Some w \<Longrightarrow> r3 (key @ more) p k = Some w"
  by (auto simp: r3_def byte_at_mono split: bind_splits)

lemma lanes_mono:
  "lanes key p i seed see1 see2 = Some r \<Longrightarrow> lanes (key @ more) p i seed see1 see2 = Some r"
proof (induction key p i seed see1 see2 rule: lanes.induct)
  case (1 key p i seed see1 see2)
  from "1.prems" obtain w0 w1 w2 w3 w4 w5 where
    rd: "r8 key p = Some w0" "r8 key (p + 8) = Some w1" "r8 key (p + 16) = Some w2"
      "r8 key (p + 24) = Some w3" "r8 key (p + 32) = Some w4" "r8 key (p + 40) = Some w5"
    by (subst (asm) lanes.simps) (auto split: bind_splits)
  define x where "x = mix (w0 XOR secret ! 1) (w1 XOR seed)"
  define xa where "xa = mix (w2 XOR secret ! 2) (w3 XOR see1)"
  define xb where "xb = mix (w4 XOR secret ! 3) (w5 XOR see2)"
  have body: "lanes k p i seed see1 see2 =
      (if 48 < i - 48 then lanes k (p + 48) (i - 48) x xa xb
       else Some (p + 48, i - 48, x, xa, xb))"
    if "r8 k p = Some w0" "r8 k (p + 8) = Some w1" "r8 k (p + 16) = Some w2"
      "r8 k (p + 24) = Some w3" "r8 k (p + 32) = Some w4" "r8 k (p + 40) = Some w5" for k
    by (subst lanes.simps) (simp only: that bind.bind_lunit Let_def x_def xa_def xb_def)
  note short = body [OF rd]
  note long = body [OF rd [THEN r8_mono, of more]]
  show ?case
  proof (cases "48 < i - 48")
    case True
    with "1.prems" short have "lanes key (p + 48) (i - 48) x xa xb = Some r"
      by simp
    then have "lanes (key @ more) (p + 48) (i - 48) x xa xb = Some r"
      by (rule "1.IH" [OF rd x_def xa_def xb_def refl refl True])
    with True long show ?thesis by simp
  next
    case False
    with "1.prems" short long show ?thesis by simp
  qed
qed

lemma strides_mono:
  "strides key p i seed = Some r \<Longrightarrow> strides (key @ more) p i seed = Some r"
proof (induction key p i seed rule: strides.induct)
  case (1 key p i seed)
  show ?case
  proof (cases "16 < i")
    case True
    with "1.prems" obtain w0 w1 where
      rd: "r8 key p = Some w0" "r8 key (p + 8) = Some w1"
      by (subst (asm) strides.simps) (auto split: bind_splits)
    define x where "x = mix (w0 XOR secret ! 1) (w1 XOR seed)"
    have body: "strides k p i seed = strides k (p + 16) (i - 16) x"
      if "r8 k p = Some w0" "r8 k (p + 8) = Some w1" for k
      using True by (subst strides.simps) (simp only: that bind.bind_lunit Let_def x_def if_True)
    note short = body [OF rd]
    note long = body [OF rd [THEN r8_mono, of more]]
    from "1.prems" short have "strides key (p + 16) (i - 16) x = Some r"
      by simp
    then have "strides (key @ more) (p + 16) (i - 16) x = Some r"
      by (rule "1.IH" [OF True rd x_def refl refl])
    with long show ?thesis by simp
  next
    case False
    then have "strides k p i seed = Some (p, i, seed)" for k
      by (subst strides.simps) simp
    with "1.prems" show ?thesis by simp
  qed
qed

lemma hash_locals_mono:
  assumes "hash_locals key len = Some r"
  shows "hash_locals (key @ more) len = Some r"
proof (cases "len \<le> 16")
  case True
  with assms show ?thesis
    by (auto simp: hash_locals_def Let_def r4_mono r3_mono split: bind_splits if_splits)
next
  case False
  define st where "st = (if 48 < len then
       do { (p, i, seed, see1, see2) \<leftarrow> lanes key 0 len (secret ! 0) (secret ! 0) (secret ! 0);
            Some (p, i, seed XOR (see1 XOR see2)) }
     else Some (0, len, secret ! 0))"
  define st' where "st' = (if 48 < len then
       do { (p, i, seed, see1, see2) \<leftarrow> lanes (key @ more) 0 len (secret ! 0) (secret ! 0) (secret ! 0);
            Some (p, i, seed XOR (see1 XOR see2)) }
     else Some (0, len, secret ! 0))"
  have unf: "hash_locals k len =
      do { (p, i, seed) \<leftarrow> (if 48 < len then
             do { (p, i, seed, see1, see2) \<leftarrow> lanes k 0 len (secret ! 0) (secret ! 0) (secret ! 0);
                  Some (p, i, seed XOR (see1 XOR see2)) }
           else Some (0, len, secret ! 0));
           (p, i, seed) \<leftarrow> strides k p i seed;
           a \<leftarrow> r8 k (p + uint i - 16);
           b \<leftarrow> r8 k (p + uint i - 8);
           Some (seed, a, b) }" for k
    using False by (simp add: hash_locals_def Let_def)
  from assms obtain p i seed where e1: "st = Some (p, i, seed)"
    unfolding unf st_def by (auto split: bind_splits)
  with assms obtain p' i' seed' where e2: "strides key p i seed = Some (p', i', seed')"
    unfolding unf st_def by (auto split: bind_splits)
  with e1 assms obtain a b where e3: "r8 key (p' + uint i' - 16) = Some a"
      "r8 key (p' + uint i' - 8) = Some b" and r: "r = (seed', a, b)"
    unfolding unf st_def by (auto split: bind_splits)
  have e1': "st' = Some (p, i, seed)"
    using e1 unfolding st_def st'_def
    by (auto split: if_splits bind_splits dest: lanes_mono [where more = more])
  show ?thesis
    unfolding unf
    using e1' [unfolded st'_def] strides_mono [OF e2, of more] e3 [THEN r8_mono, of more] r
    by simp
qed

lemma hash_bytes_mono:
  "hash_bytes key len = Some h \<Longrightarrow> hash_bytes (key @ more) len = Some h"
  by (auto simp: hash_bytes_def split: bind_splits dest: hash_locals_mono [where more = more])

subsection \<open>The claims about the byte hash\<close>

lemma hash_bytes_0: "hash_bytes key 0 = Some 0x42BC986DC5EEC4D3"
  by (simp add: hash_bytes_def hash_locals_0 secret_def mix_def mum_def)

text \<open>
  C2. When at least \<open>len\<close> bytes are valid from \<open>key\<close> on, \<^verbatim>\<open>hash(key, len)\<close> returns a
  value, and it returns the same value when only the first \<open>len\<close> bytes are valid: no
  read touches an offset outside \<open>[0, len)\<close>. With \<open>len = 0\<close> it returns one fixed value
  for every key, also for the null pointer, which has no valid byte at all.
\<close>

theorem hash_bytes_reads_in_bounds:
  assumes "unat len \<le> length key"
  shows "(\<exists>h. hash_bytes (take (unat len) key) len = Some h \<and> hash_bytes key len = Some h)
    \<and> hash_bytes [] 0 = Some 0x42BC986DC5EEC4D3
    \<and> hash_bytes key 0 = Some 0x42BC986DC5EEC4D3"
proof -
  have "unat len = length (take (unat len) key)"
    using assms by simp
  then obtain r where "hash_locals (take (unat len) key) len = Some r"
    using hash_locals_exact by blast
  then obtain h where h: "hash_bytes (take (unat len) key) len = Some h"
    by (cases r) (simp add: hash_bytes_def)
  from hash_bytes_mono [OF h, of "drop (unat len) key"]
  have "hash_bytes key len = Some h"
    by simp
  with h show ?thesis
    by (simp add: hash_bytes_0)
qed

text \<open>A key of seven valid bytes hashed with length 5.\<close>

theorem hash_bytes_reads_in_bounds_witness:
  "unat (5 :: u64) \<le> length [1, 2, 3, 4, 5, 6, 7 :: u8]
   \<and> (\<exists>h. hash_bytes (take (unat (5 :: u64)) [1, 2, 3, 4, 5, 6, 7]) 5 = Some h
          \<and> hash_bytes [1, 2, 3, 4, 5, 6, 7] 5 = Some h)"
proof -
  have "unat (5 :: u64) \<le> length [1, 2, 3, 4, 5, 6, 7 :: u8]"
    by simp
  from this hash_bytes_reads_in_bounds [OF this] show ?thesis
    by blast
qed

text \<open>
  C4. For a key of length 4 to 16 the working word \<open>a\<close> is the 4-byte load at offset 0,
  shifted into the high half, combined with the 4-byte load at offset
  \<open>(length >> 3) << 2\<close>; \<open>b\<close> is the 4-byte load at offset \<open>length - 4\<close>, shifted into
  the high half, combined with the 4-byte load at offset
  \<open>length - 4 - ((length >> 3) << 2)\<close>. The stride plus 4 does not exceed the
  length, so all four loads lie inside the key.
\<close>

theorem hash_locals_short_words:
  assumes "4 \<le> unat len" "unat len \<le> 16" "unat len = length key"
  shows "hash_locals key len =
     Some (secret ! 0,
           push_bit 32 (word32_at key 0)
             OR word32_at key (push_bit 2 (drop_bit 3 (length key))),
           push_bit 32 (word32_at key (length key - 4))
             OR word32_at key (length key - 4 - push_bit 2 (drop_bit 3 (length key))))
     \<and> push_bit 2 (drop_bit 3 (length key)) + 4 \<le> length key"
  using hash_locals_4_16 [OF assms] stride_room [of "length key"] assms by simp

text \<open>The key 1, 2, ..., 9: stride 4, loads at offsets 0, 4, 5 and 1.\<close>

theorem hash_locals_short_words_witness:
  "hash_locals [1, 2, 3, 4, 5, 6, 7, 8, 9] 9 =
     Some (secret ! 0, 0x0403020108070605, 0x0908070605040302)"
proof -
  have "4 \<le> unat (9 :: u64)" "unat (9 :: u64) \<le> 16"
    "unat (9 :: u64) = length [1, 2, 3, 4, 5, 6, 7, 8, 9 :: u8]"
    by simp_all
  from hash_locals_short_words [OF this] show ?thesis
    by (simp add: word32_at_def push_bit_eq_mult drop_bit_eq_div)
qed

text \<open>
  C3, as amended. For a key longer than 48 bytes the three seeds are advanced once per
  48-byte chunk for as long as more than 48 bytes remain, that is over
  \<open>(length - 1) div 48\<close> chunks; then the seeds are folded as
  \<open>seed XOR (see1 XOR see2)\<close>, 16-byte strides follow while more than 16 bytes remain,
  and \<open>a\<close> and \<open>b\<close> are the last two 8-byte words of the key.
\<close>

theorem hash_locals_long_key:
  assumes "48 < unat len" "unat len = length key"
  shows "hash_locals key len = Some (long_spec ((length key - 1) div 48) key)"
  using assms by (rule hash_locals_long)

text \<open>A key of 50 bytes: one chunk goes through the three seeds.\<close>

theorem hash_locals_long_key_witness:
  "hash_locals (replicate 50 1) 50 = Some (long_spec 1 (replicate 50 1))"
proof -
  have "48 < unat (50 :: u64)" "unat (50 :: u64) = length (replicate 50 (1 :: u8))"
    by simp_all
  from hash_locals_long_key [OF this] show ?thesis
    by simp
qed

text \<open>
  C3 as stated fails where the length is a multiple of 48. On a key of 96 zero bytes the
  loop over the three seeds stops after one chunk, at \<open>p = 48\<close> with \<open>i = 48\<close>: a full
  48-byte chunk is still unconsumed when the seeds are folded, and the locals differ from
  those obtained by running both full chunks through the three seeds.
\<close>

theorem lanes_leave_full_chunk:
  "lanes (replicate 96 0) 0 96 (secret ! 0) (secret ! 0) (secret ! 0) =
     Some (48, 48, 2302960717771869484, 16325314592318339460, 5298722245267929997)
   \<and> hash_locals (replicate 96 0) 96 \<noteq> Some (long_spec (96 div 48) (replicate 96 0))"
  by code_simp

section \<open>Properties of the combiner\<close>

lemma hash_combine_foldl:
  "hash_combine hasher seed vs = foldl (\<lambda>s v. hash_combine hasher s [v]) seed vs"
  by (induction vs arbitrary: seed) simp_all

lemma HashValueImpl_foldl:
  "i < length tt \<Longrightarrow>
   HashValueImpl hasher i seed tt = foldl (\<lambda>s v. hash_combine hasher s [v]) seed (take (Suc i) tt)"
proof (induction i)
  case 0
  then show ?case by (cases tt) simp_all
next
  case (Suc i)
  then have "take (Suc (Suc i)) tt = take (Suc i) tt @ [tt ! Suc i]"
    by (simp add: take_Suc_conv_app_nth)
  with Suc show ?case by simp
qed

lemma vector_loop_foldl:
  "vector_loop hasher seed v = foldl (\<lambda>s e. hash_combine hasher s [e]) seed v"
  by (induction v arbitrary: seed) simp_all

text \<open>
  C5. The two-argument \<^verbatim>\<open>hash_combine\<close> returns
  \<open>seed XOR (hash(v) + 0x9e3779b9 + (seed << 6) + (seed >> 2))\<close> in 64-bit wrapping
  arithmetic; the variadic form is the two-argument step applied to the first argument
  and then the variadic form on the rest, that is the left fold of the two-argument step
  over the arguments in their order; with no argument the seed is returned unchanged.
\<close>

theorem hash_combine_formula:
  "hash_combine hasher seed [v] =
     seed XOR (hasher v + 0x9e3779b9 + push_bit 6 seed + drop_bit 2 seed)
   \<and> hash_combine hasher seed (v # rest) =
       hash_combine hasher (hash_combine hasher seed [v]) rest
   \<and> hash_combine hasher seed vs = foldl (\<lambda>s x. hash_combine hasher s [x]) seed vs
   \<and> hash_combine hasher seed [] = seed"
  using hash_combine_foldl [of hasher seed vs] by simp

text \<open>
  C6. The hash of a tuple with fields \<open>x, xs\<close> is the left fold of the two-argument
  combine over the fields in ascending position from seed 0, and the hash of the pair
  \<open>(a, b)\<close> is the hash of the 2-tuple \<open>(a, b)\<close>.
\<close>

theorem hash_tuple_ascending:
  "hash_tuple hasher (x # xs) =
     Some (foldl (\<lambda>seed v. hash_combine hasher seed [v]) 0 (x # xs))
   \<and> hash_tuple hasher [a, b] = Some (hash_pair hasher (a, b))"
proof
  have "HashValueImpl hasher (length xs) 0 (x # xs) =
        foldl (\<lambda>seed v. hash_combine hasher seed [v]) 0 (take (Suc (length xs)) (x # xs))"
    by (rule HashValueImpl_foldl) simp
  then show "hash_tuple hasher (x # xs) =
     Some (foldl (\<lambda>seed v. hash_combine hasher seed [v]) 0 (x # xs))"
    by (simp add: hash_tuple_def)
next
  have "HashValueImpl hasher (Suc 0) 0 [a, b] = hash_combine hasher 0 [a, b]"
    by simp
  then show "hash_tuple hasher [a, b] = Some (hash_pair hasher (a, b))"
    by (simp add: hash_tuple_def hash_pair_def)
qed

text \<open>
  C7. Combining 1 and then 2 into the seed 0 gives a different seed than combining 2
  and then 1, with the arguments taken as \<^verbatim>\<open>int\<close> and also with the arguments taken as
  \<^verbatim>\<open>unsigned long long\<close>.
\<close>

theorem hash_combine_order_sensitive:
  "hash_combine hash_int (hash_combine hash_int 0 [1]) [2] \<noteq>
   hash_combine hash_int (hash_combine hash_int 0 [2]) [1]
   \<and> hash_combine hash_unsigned_long_long (hash_combine hash_unsigned_long_long 0 [1]) [2] \<noteq>
     hash_combine hash_unsigned_long_long (hash_combine hash_unsigned_long_long 0 [2]) [1]"
  by (simp add: hash_int_def hash_unsigned_long_long_def hash_u64_def mix_def mum_def)

text \<open>
  C8, as amended. Two sequences of equal length whose elements are pairwise equal in
  the same order have equal hashes: the hash is the left fold of the two-argument
  combine over the elements in iteration order from seed 0. The converse is not
  claimed.
\<close>

theorem hash_vector_equal_sequences:
  assumes "length xs = length ys" "\<forall>i<length xs. xs ! i = ys ! i"
  shows "hash_vector hasher xs = hash_vector hasher ys
    \<and> hash_vector hasher xs = foldl (\<lambda>seed elem. hash_combine hasher seed [elem]) 0 xs"
proof -
  from assms have "xs = ys"
    by (simp add: list_eq_iff_nth_eq)
  then show ?thesis
    by (simp add: hash_vector_def vector_loop_foldl)
qed

text \<open>The sequence 1, 2, 3 of \<^verbatim>\<open>int\<close>.\<close>

theorem hash_vector_equal_sequences_witness:
  "hash_vector hash_int [1, 2, 3] = hash_vector hash_int [1, 2, 3]
   \<and> hash_vector hash_int [1, 2, 3] =
       foldl (\<lambda>seed elem. hash_combine hash_int seed [elem]) 0 [1, 2, 3]"
  by (rule hash_vector_equal_sequences) (simp_all add: nth_Cons')

text \<open>
  C8 as stated fails in the direction from equal hashes to equal sequences: two
  one-element sequences of \<^verbatim>\<open>unsigned long long\<close> with different elements and the
  same hash.
\<close>

theorem hash_vector_collision:
  "hash_vector hash_unsigned_long_long [18098461271762202480] =
   hash_vector hash_unsigned_long_long [11423844118800974395]
   \<and> [18098461271762202480 :: u64] \<noteq> [11423844118800974395]"
  by (simp add: hash_vector_def hash_unsigned_long_long_def hash_u64_def mix_def mum_def)

section \<open>Properties of the dispatch\<close>

text \<open>
  C9. A raw pointer to address \<open>p\<close>, a \<^verbatim>\<open>unique_ptr\<close> managing \<open>p\<close> and a
  \<^verbatim>\<open>shared_ptr\<close> managing \<open>p\<close> all hash to \<open>hash_u64 p\<close>; the null raw pointer and the
  empty smart pointers hash to \<open>hash_u64 0\<close>.
\<close>

theorem hash_pointer_identity:
  "hash_ptr p = hash_u64 p
   \<and> hash_unique_ptr (Managing p) = hash_u64 p
   \<and> hash_shared_ptr (Managing p) = hash_u64 p
   \<and> hash_ptr nullptr = hash_u64 0
   \<and> hash_unique_ptr Empty = hash_u64 0
   \<and> hash_shared_ptr Empty = hash_u64 0"
  by (simp add: hash_ptr_def hash_unique_ptr_def hash_shared_ptr_def nullptr_def)

subsection \<open>Signed and unsigned conversion\<close>

lemma uint_scast_64: "uint (scast (v :: 'a::len word) :: u64) = sint v mod 2 ^ 64"
proof -
  have "uint (scast v :: u64) = sint v mod 2 ^ LENGTH(64)"
    by (simp only: scast_eq uint_word_of_int)
  then show ?thesis by simp
qed

lemma scast_eq_ucast_iff:
  fixes v :: "'a::len word"
  assumes "LENGTH('a) < 64"
  shows "((scast v :: u64) = ucast v) = (0 \<le> sint v)"
proof -
  define m :: int where "m = 2 ^ (LENGTH('a) - 1)"
  have L: "(2 :: int) ^ LENGTH('a) = 2 * m"
    unfolding m_def by (cases "LENGTH('a)") simp_all
  have "(2 :: int) ^ LENGTH('a) \<le> 2 ^ 63"
    using assms by (intro power_increasing) simp_all
  then have m: "0 < m" "2 * m < 2 ^ 64"
    by (simp_all add: L m_def)
  have u: "uint v = sint v mod (2 * m)"
    using uint_sint [of v] by (simp add: take_bit_eq_mod L)
  have r: "- m \<le> sint v" "sint v < m"
    using sint_ge [of v] sint_lt [of v] by (simp_all add: m_def)
  have a: "((scast v :: u64) = ucast v) = (uint (scast v :: u64) = uint (ucast v :: u64))"
    by (simp only: word_uint_eq_iff)
  have b: "uint (ucast v :: u64) = uint v"
  proof -
    have "uint v < 2 ^ LENGTH('a)" by (rule unsigned_less)
    with m have "uint v < 2 ^ 64" by (simp add: L)
    then show ?thesis
      by (simp add: unsigned_ucast_eq take_bit_eq_mod)
  qed
  have c: "(sint v mod 2 ^ 64 = uint v) = (0 \<le> sint v)"
  proof (cases "0 \<le> sint v")
    case True
    with r m show ?thesis by (simp add: u)
  next
    case False
    with r m have "0 \<le> sint v + 2 ^ 64" "sint v + 2 ^ 64 < 2 ^ 64"
      "0 \<le> sint v + 2 * m" "sint v + 2 * m < 2 * m"
      by simp_all
    then have "(sint v + 2 ^ 64) mod 2 ^ 64 = sint v + 2 ^ 64"
      and "(sint v + 2 * m) mod (2 * m) = sint v + 2 * m"
      by (simp_all only: mod_pos_pos_trivial)
    then have "sint v mod 2 ^ 64 = sint v + 2 ^ 64" "sint v mod (2 * m) = sint v + 2 * m"
      by simp_all
    with False m show ?thesis by (simp add: u)
  qed
  show ?thesis by (simp only: a b uint_scast_64 c)
qed

text \<open>
  A negative value of a type narrower than 64 bits is sign-extended to its unsigned bit
  pattern plus \<open>2^64 - 2^L\<close>. Multiplied by the constant of \<^verbatim>\<open>hash(uint64_t)\<close>, the low
  words of the two products agree in their low \<open>L\<close> bits, and the high words differ by a
  fixed amount or that amount plus one, neither a multiple of \<open>2^L\<close>; so the two hashes
  differ in their low \<open>L\<close> bits.
\<close>

lemma quotient_shift:
  fixes x D G B N :: nat
  assumes N: "0 < N" and B: "B dvd N" "B dvd D"
    and k: "\<not> B dvd (D * G) div N" "\<not> B dvd Suc ((D * G) div N)"
  shows "((x + D) * G) mod N mod B = (x * G) mod N mod B"
    and "((x + D) * G) div N mod B \<noteq> (x * G) div N mod B"
proof -
  have split: "(x + D) * G = x * G + D * G"
    by (rule distrib_right)
  have "((x + D) * G) mod N mod B = ((x + D) * G) mod B"
    using B(1) by (rule mod_mod_cancel)
  also have "\<dots> = (x * G) mod B"
  proof -
    from B(2) obtain c where "D = B * c" by (elim dvdE)
    then have "(x + D) * G = x * G + B * (c * G)"
      by (simp add: algebra_simps)
    then show ?thesis by simp
  qed
  also have "\<dots> = (x * G) mod N mod B"
    using B(1) by (rule mod_mod_cancel [symmetric])
  finally show "((x + D) * G) mod N mod B = (x * G) mod N mod B" .
  define e where "e = ((x * G) mod N + (D * G) mod N) div N"
  have "(x * G) mod N < N" "(D * G) mod N < N"
    using N by simp_all
  then have "(x * G) mod N + (D * G) mod N < 2 * N"
    by linarith
  then have "e < 2"
    unfolding e_def by (rule less_mult_imp_div_less)
  then have e: "e = 0 \<or> e = 1"
    by arith
  have hi: "((x + D) * G) div N = (x * G) div N + ((D * G) div N + e)"
    unfolding split e_def by (simp only: div_add1_eq [of "x * G" "D * G" N] add.assoc)
  show "((x + D) * G) div N mod B \<noteq> (x * G) div N mod B"
  proof
    assume "((x + D) * G) div N mod B = (x * G) div N mod B"
    then have "((x * G) div N + ((D * G) div N + e)) mod B = ((x * G) div N) mod B"
      by (simp only: hi)
    then have "B dvd ((x * G) div N + ((D * G) div N + e)) - (x * G) div N"
      by (simp add: mod_eq_dvd_iff_nat)
    then have "B dvd (D * G) div N + e"
      by simp
    with e k show False by auto
  qed
qed

lemma unat_scast_negative:
  fixes v :: "'a::len word"
  assumes "LENGTH('a) < 64" "sint v < 0"
  shows "unat (scast v :: u64) = unat v + (2 ^ 64 - 2 ^ LENGTH('a))"
proof -
  define m :: int where "m = 2 ^ (LENGTH('a) - 1)"
  have L: "(2 :: int) ^ LENGTH('a) = 2 * m"
    unfolding m_def by (cases "LENGTH('a)") simp_all
  have "(2 :: int) ^ LENGTH('a) \<le> 2 ^ 63"
    using assms(1) by (intro power_increasing) simp_all
  then have m: "0 < m" "2 * m < 2 ^ 64"
    by (simp_all add: L m_def)
  have r: "- m \<le> sint v"
    using sint_ge [of v] by (simp add: m_def)
  have "uint (scast v :: u64) = sint v mod 2 ^ LENGTH(64)"
    by (simp only: scast_eq uint_word_of_int)
  then have s: "uint (scast v :: u64) = sint v mod 2 ^ 64"
    by simp
  have u: "uint v = sint v mod (2 * m)"
    using uint_sint [of v] by (simp add: take_bit_eq_mod L)
  from r m assms(2) have "0 \<le> sint v + 2 ^ 64" "sint v + 2 ^ 64 < 2 ^ 64"
    "0 \<le> sint v + 2 * m" "sint v + 2 * m < 2 * m"
    by simp_all
  then have "(sint v + 2 ^ 64) mod 2 ^ 64 = sint v + 2 ^ 64"
    and "(sint v + 2 * m) mod (2 * m) = sint v + 2 * m"
    by (simp_all only: mod_pos_pos_trivial)
  then have "sint v mod 2 ^ 64 = sint v + 2 ^ 64" "sint v mod (2 * m) = sint v + 2 * m"
    by simp_all
  with s u have "uint (scast v :: u64) = uint v + (2 ^ 64 - 2 ^ LENGTH('a))"
    by (simp add: L)
  moreover have "(2 :: nat) ^ LENGTH('a) \<le> 2 ^ 64"
    using assms(1) by (intro power_increasing) simp_all
  then have "int (2 ^ 64 - 2 ^ LENGTH('a)) = 2 ^ 64 - 2 ^ LENGTH('a)"
    by (simp add: of_nat_diff)
  ultimately have "int (unat (scast v :: u64)) = int (unat v + (2 ^ 64 - 2 ^ LENGTH('a)))"
    by (simp only: uint_nat of_nat_add)
  then show ?thesis
    by (simp only: of_nat_eq_iff)
qed

lemma unat_ucast_narrow:
  fixes v :: "'a::len word"
  assumes "LENGTH('a) < 64"
  shows "unat (ucast v :: u64) = unat v"
proof -
  have "unat v < 2 ^ LENGTH('a)" by (rule unsigned_less)
  also have "(2 :: nat) ^ LENGTH('a) \<le> 2 ^ 64"
    using assms by (intro power_increasing) simp_all
  finally show ?thesis
    by (simp add: unsigned_ucast_eq take_bit_eq_mod)
qed

lemma hash_u64_halves: "hash_u64 a = fst (mum a 0x9E3779B97F4A7C15) XOR snd (mum a 0x9E3779B97F4A7C15)"
  by (simp add: hash_u64_def mix_def case_prod_beta)

lemma hash_u64_shift_differs:
  fixes a b :: u64
  assumes ab: "unat a = unat b + D"
    and B: "2 ^ L dvd D" "L \<le> 64"
    and k: "\<not> 2 ^ L dvd (D * 0x9E3779B97F4A7C15) div 2 ^ 64"
      "\<not> 2 ^ L dvd Suc ((D * 0x9E3779B97F4A7C15) div 2 ^ 64)"
  shows "hash_u64 a \<noteq> hash_u64 b"
proof
  define G :: u64 where "G = 0x9E3779B97F4A7C15"
  have uG: "unat G = 0x9E3779B97F4A7C15" by (simp add: G_def)
  define lo_a hi_a lo_b hi_b where "lo_a = fst (mum a G)" and "hi_a = snd (mum a G)"
    and "lo_b = fst (mum b G)" and "hi_b = snd (mum b G)"
  assume "hash_u64 a = hash_u64 b"
  then have eq: "lo_a XOR hi_a = lo_b XOR hi_b"
    by (simp only: hash_u64_halves lo_a_def hi_a_def lo_b_def hi_b_def G_def)
  have dv: "(2 :: nat) ^ L dvd 2 ^ 64"
    using B(2) by (rule le_imp_power_dvd)
  note q = quotient_shift [of "2 ^ 64" "2 ^ L" D "0x9E3779B97F4A7C15" "unat b", OF _ dv B(1) k]
  have lo: "unat lo_a mod 2 ^ L = unat lo_b mod 2 ^ L"
    using q(1) by (simp add: lo_a_def lo_b_def mum_unat ab uG)
  have hi: "unat hi_a mod 2 ^ L \<noteq> unat hi_b mod 2 ^ L"
    using q(2) by (simp add: hi_a_def hi_b_def mum_unat ab uG)
  have ut: "unat (take_bit L x) = unat x mod 2 ^ L" for x :: u64
    unfolding unsigned_take_bit_eq by (rule take_bit_eq_mod)
  have tb: "(take_bit L x = take_bit L y) = (unat x mod 2 ^ L = unat y mod 2 ^ L)" for x y :: u64
    by (simp only: word_unat_eq_iff [of "take_bit L x"] ut)
  from eq have "take_bit L lo_a XOR take_bit L hi_a = take_bit L lo_b XOR take_bit L hi_b"
    by (simp only: flip: take_bit_xor)
  moreover have tlo: "take_bit L lo_a = take_bit L lo_b"
    using lo by (simp only: tb)
  ultimately have "take_bit L lo_b XOR (take_bit L lo_b XOR take_bit L hi_a) =
      take_bit L lo_b XOR (take_bit L lo_b XOR take_bit L hi_b)"
    by simp
  then have "take_bit L hi_a = take_bit L hi_b"
    by (simp only: flip: xor.assoc) simp
  with hi show False
    by (simp only: tb)
qed

lemma hash_u64_narrow:
  fixes v :: "'a::len word"
  assumes len: "LENGTH('a) < 64"
    and d: "2 ^ LENGTH('a) dvd D" "D = 2 ^ 64 - 2 ^ LENGTH('a)"
    and k: "\<not> 2 ^ LENGTH('a) dvd (D * 0x9E3779B97F4A7C15) div 2 ^ 64"
      "\<not> 2 ^ LENGTH('a) dvd Suc ((D * 0x9E3779B97F4A7C15) div 2 ^ 64)"
  shows "(hash_u64 (scast v) = hash_u64 (ucast v)) = (0 \<le> sint v)"
proof (cases "0 \<le> sint v")
  case True
  then have "(scast v :: u64) = ucast v"
    by (simp only: scast_eq_ucast_iff [OF len])
  with True show ?thesis by simp
next
  case False
  then have "sint v < 0" by simp
  then have "unat (scast v :: u64) = unat (ucast v :: u64) + D"
    by (simp only: unat_scast_negative [OF len] unat_ucast_narrow [OF len] d(2))
  then have "hash_u64 (scast v) \<noteq> hash_u64 (ucast v)"
    using d(1) _ k by (rule hash_u64_shift_differs) (use len in simp)
  with False show ?thesis by simp
qed

lemma hash_u64_narrow_8: "(hash_u64 (scast (c :: u8)) = hash_u64 (ucast c)) = (0 \<le> sint c)"
  by (rule hash_u64_narrow [where D = "2 ^ 64 - 2 ^ 8"]) simp_all

lemma hash_u64_narrow_16: "(hash_u64 (scast (s :: u16)) = hash_u64 (ucast s)) = (0 \<le> sint s)"
  by (rule hash_u64_narrow [where D = "2 ^ 64 - 2 ^ 16"]) simp_all

lemma hash_u64_narrow_32: "(hash_u64 (scast (v :: u32)) = hash_u64 (ucast v)) = (0 \<le> sint v)"
  by (rule hash_u64_narrow [where D = "2 ^ 64 - 2 ^ 32"]) simp_all

lemma scast_minus_1_32: "(scast (- 1 :: u32) :: u64) = 0xFFFFFFFFFFFFFFFF"
  by code_simp

lemma scast_minus_1_64: "(scast (- 1 :: u64) :: u64) = 0xFFFFFFFFFFFFFFFF"
  by code_simp

lemma ucast_max_32: "(ucast (0xFFFFFFFF :: u32) :: u64) = 0xFFFFFFFF"
  by code_simp

lemma hash_minus_1_differs: "hash_int (- 1) \<noteq> hash_unsigned_int 0xFFFFFFFF"
  by code_simp

text \<open>
  C10, as amended. For every value \<open>v\<close> of a signed integral type, and for an
  enumerator with the underlying type \<^verbatim>\<open>int\<close>, the hash is \<open>hash_u64\<close> of \<open>v\<close> modulo
  \<open>2^64\<close>, the sign-extended value. \<^verbatim>\<open>int(-1)\<close> and \<^verbatim>\<open>long long(-1)\<close> hash to
  \<open>hash_u64 0xFFFFFFFFFFFFFFFF\<close>, the \<^verbatim>\<open>unsigned int\<close> \<open>0xFFFFFFFF\<close> hashes to
  \<open>hash_u64 0xFFFFFFFF\<close>, and these two hashes differ. A value of a signed type
  narrower than 64 bits (8, 16 or 32 bits) hashes equally to its same-width unsigned bit
  pattern exactly when it is not negative: every negative value hashes differently. For
  the 64-bit types the conversion keeps every bit: a \<^verbatim>\<open>long long\<close> and the
  \<^verbatim>\<open>unsigned long long\<close> with its bit pattern hash equally.
\<close>

theorem hash_signed_conversion:
  "hash_char c = hash_u64 (word_of_int (sint c))
   \<and> hash_signed_char c = hash_u64 (word_of_int (sint c))
   \<and> hash_short s = hash_u64 (word_of_int (sint s))
   \<and> hash_wchar_t v = hash_u64 (word_of_int (sint v))
   \<and> hash_int v = hash_u64 (word_of_int (sint v))
   \<and> hash_long w = hash_u64 (word_of_int (sint w))
   \<and> hash_long_long w = hash_u64 (word_of_int (sint w))
   \<and> hash_enum underlying scast e = hash_u64 (word_of_int (sint (underlying e :: u32)))
   \<and> uint (word_of_int (sint v) :: u64) = sint v mod 2 ^ 64
   \<and> hash_int (- 1) = hash_u64 0xFFFFFFFFFFFFFFFF
   \<and> hash_long_long (- 1) = hash_u64 0xFFFFFFFFFFFFFFFF
   \<and> hash_unsigned_int 0xFFFFFFFF = hash_u64 0x00000000FFFFFFFF
   \<and> hash_int (- 1) \<noteq> hash_unsigned_int 0xFFFFFFFF
   \<and> ((scast c :: u64) = ucast c) = (0 \<le> sint c)
   \<and> ((scast s :: u64) = ucast s) = (0 \<le> sint s)
   \<and> ((scast v :: u64) = ucast v) = (0 \<le> sint v)
   \<and> (hash_char c = hash_unsigned_char c) = (0 \<le> sint c)
   \<and> (hash_signed_char c = hash_unsigned_char c) = (0 \<le> sint c)
   \<and> (hash_short s = hash_unsigned_short s) = (0 \<le> sint s)
   \<and> (hash_int v = hash_unsigned_int v) = (0 \<le> sint v)
   \<and> (hash_wchar_t v = hash_unsigned_int v) = (0 \<le> sint v)
   \<and> hash_long_long w = hash_unsigned_long_long w"
proof -
  have conv: "hash_char c = hash_u64 (word_of_int (sint c))"
    "hash_signed_char c = hash_u64 (word_of_int (sint c))"
    "hash_short s = hash_u64 (word_of_int (sint s))"
    "hash_wchar_t v = hash_u64 (word_of_int (sint v))"
    "hash_int v = hash_u64 (word_of_int (sint v))"
    "hash_long w = hash_u64 (word_of_int (sint w))"
    "hash_long_long w = hash_u64 (word_of_int (sint w))"
    "hash_enum underlying scast e = hash_u64 (word_of_int (sint (underlying e :: u32)))"
    by (simp_all only: hash_char_def hash_signed_char_def hash_short_def hash_wchar_t_def
        hash_int_def hash_long_def hash_long_long_def hash_enum_def scast_eq)
  have md: "uint (word_of_int (sint v) :: u64) = sint v mod 2 ^ 64"
    using uint_scast_64 [of v] by (simp only: scast_eq)
  have inst: "hash_int (- 1) = hash_u64 0xFFFFFFFFFFFFFFFF"
    "hash_long_long (- 1) = hash_u64 0xFFFFFFFFFFFFFFFF"
    "hash_unsigned_int 0xFFFFFFFF = hash_u64 0x00000000FFFFFFFF"
    by (simp_all only: hash_int_def hash_long_long_def hash_unsigned_int_def
        scast_minus_1_32 scast_minus_1_64 ucast_max_32)
  have narrow: "((scast c :: u64) = ucast c) = (0 \<le> sint c)"
    "((scast s :: u64) = ucast s) = (0 \<le> sint s)"
    "((scast v :: u64) = ucast v) = (0 \<le> sint v)"
    by (simp_all only: scast_eq_ucast_iff len_of_numeral_defs)
  have differ: "(hash_char c = hash_unsigned_char c) = (0 \<le> sint c)"
    "(hash_signed_char c = hash_unsigned_char c) = (0 \<le> sint c)"
    "(hash_short s = hash_unsigned_short s) = (0 \<le> sint s)"
    "(hash_int v = hash_unsigned_int v) = (0 \<le> sint v)"
    "(hash_wchar_t v = hash_unsigned_int v) = (0 \<le> sint v)"
    by (simp_all only: hash_char_def hash_signed_char_def hash_unsigned_char_def hash_short_def
        hash_unsigned_short_def hash_int_def hash_unsigned_int_def hash_wchar_t_def
        hash_u64_narrow_8 hash_u64_narrow_16 hash_u64_narrow_32)
  have wide: "hash_long_long w = hash_unsigned_long_long w"
    by (simp add: hash_long_long_def hash_unsigned_long_long_def)
  from conv md inst hash_minus_1_differs narrow differ wide show ?thesis
    by (intro conjI)
qed

text \<open>
  C10 as stated fails at 64 bits: the negative \<^verbatim>\<open>long long\<close> value \<open>-1\<close> has the bit
  pattern \<open>0xFFFFFFFFFFFFFFFF\<close>, and it hashes equally to the \<^verbatim>\<open>unsigned long long\<close>
  with that bit pattern.
\<close>

theorem hash_long_long_minus_1_collides:
  "sint (0xFFFFFFFFFFFFFFFF :: u64) = - 1
   \<and> hash_long_long 0xFFFFFFFFFFFFFFFF = hash_unsigned_long_long 0xFFFFFFFFFFFFFFFF"
  by (simp add: hash_long_long_def hash_unsigned_long_long_def)

end
